theory Spec2Isabelle
  imports Main "HOL-Library.Sublist"
begin

section \<open>Data model\<close>

text \<open>
  A token is a short string such as \<open>''7A''\<close>. The code matrix is an array of rows.
  Reading \<open>codeMatrix[row][col]\<close> beyond the end of an existing row gives JavaScript's
  \<open>undefined\<close>, which is \<open>None\<close> here; reading a property of \<open>undefined\<close> throws a
  \<open>TypeError\<close>, which is the only error the solver can raise.
\<close>

type_synonym token = string

datatype error = TypeError

record position =
  row :: nat
  col :: nat
  value' :: "token option"

record solution =
  path :: "position list"
  completedSequences :: "nat list"

text \<open>The argument \<open>nextDirection\<close> is one of the strings \<open>'row'\<close> and \<open>'col'\<close>.\<close>

datatype direction = Row | Col

text \<open>\<open>codeMatrix[row][col]\<close> for a row that exists.\<close>

definition cell :: "token list list \<Rightarrow> nat \<Rightarrow> nat \<Rightarrow> token option" where
  "cell codeMatrix r c =
     (if c < length (codeMatrix ! r) then Some (codeMatrix ! r ! c) else None)"

section \<open>The subsequence scan\<close>

text \<open>
  The loop of \<open>isSubsequence\<close>: \<open>i\<close> runs over the array, \<open>subIdx\<close> over the
  subsequence; the loop returns the final \<open>subIdx\<close>.
\<close>

function isSubsequence_loop :: "'a list \<Rightarrow> 'a list \<Rightarrow> nat \<Rightarrow> nat \<Rightarrow> nat" where
  "isSubsequence_loop array subsequence i subIdx =
     (if i < length array \<and> subIdx < length subsequence
      then (if array ! i = subsequence ! subIdx
            then isSubsequence_loop array subsequence (i + 1) (subIdx + 1)
            else isSubsequence_loop array subsequence (i + 1) subIdx)
      else subIdx)"
  by pat_completeness auto
termination
  by (relation "measure (\<lambda>(array, subsequence, i, subIdx). length array - i)") auto

declare isSubsequence_loop.simps [simp del]

definition isSubsequence :: "'a list \<Rightarrow> 'a list \<Rightarrow> bool" where
  "isSubsequence array subsequence =
     (isSubsequence_loop array subsequence 0 0 = length subsequence)"

section \<open>The move-ordering heuristic\<close>

function evaluateMove_loop :: "'a list \<Rightarrow> 'a list \<Rightarrow> nat \<Rightarrow> nat \<Rightarrow> nat \<Rightarrow> nat" where
  "evaluateMove_loop testPath sequence pathIdx seqIdx matchCount =
     (if seqIdx < length sequence \<and> pathIdx < length testPath
      then (if testPath ! pathIdx = sequence ! seqIdx
            then evaluateMove_loop testPath sequence (pathIdx + 1) (seqIdx + 1) (matchCount + 1)
            else evaluateMove_loop testPath sequence (pathIdx + 1) seqIdx matchCount)
      else matchCount)"
  by pat_completeness auto
termination
  by (relation "measure (\<lambda>(testPath, sequence, pathIdx, seqIdx, matchCount).
        length testPath - pathIdx)") auto

declare evaluateMove_loop.simps [simp del]

text \<open>One round of the loop over the required sequences, for the sequence of index \<open>i\<close>.\<close>

definition evaluateMove_step ::
  "token list list \<Rightarrow> token option list \<Rightarrow> token option \<Rightarrow> nat list \<Rightarrow> nat \<Rightarrow> int \<Rightarrow> int" where
  "evaluateMove_step requiredSequences currentPath nextValue completed i score =
     (if i \<notin> set completed
      then (let sequence = requiredSequences ! i;
                testPath = currentPath @ [nextValue];
                matchCount = evaluateMove_loop testPath (map Some sequence) 0 0 0
            in if matchCount = length sequence then score - 1000
               else score - int matchCount * 10)
      else score)"

definition evaluateMove ::
  "token list list \<Rightarrow> token option list \<Rightarrow> token option \<Rightarrow> nat list \<Rightarrow> int" where
  "evaluateMove requiredSequences currentPath nextValue completed =
     fold (evaluateMove_step requiredSequences currentPath nextValue completed)
       [0..<length requiredSequences] 0"

section \<open>The search\<close>

text \<open>
  The moves open from the last position of the path. With \<open>'col'\<close> the next position is
  taken from the last position's column, otherwise from its row; visited coordinates are
  left out. The set \<open>visited\<close> holds the keys \<open>"row,col"\<close>, which stand for the pairs.
  An empty path has no last position, and a last position below the matrix has no row to
  read: both throw as soon as the loop body runs.
\<close>

definition possibleMoves ::
  "token list list \<Rightarrow> position list \<Rightarrow> (nat \<times> nat) set \<Rightarrow> direction \<Rightarrow> error + position list" where
  "possibleMoves codeMatrix currentPath visited nextDirection =
     (let size = length codeMatrix in
      if currentPath = [] \<and> 0 < size then Inl TypeError
      else
        let lastPos = last currentPath in
        (case nextDirection of
           Col \<Rightarrow>
             Inr (map (\<lambda>r. \<lparr>row = r, col = col lastPos,
                            value' = cell codeMatrix r (col lastPos)\<rparr>)
                   (filter (\<lambda>r. (r, col lastPos) \<notin> visited) [0..<size]))
         | Row \<Rightarrow>
             (let free = filter (\<lambda>c. (row lastPos, c) \<notin> visited) [0..<size] in
              if free \<noteq> [] \<and> size \<le> row lastPos then Inl TypeError
              else Inr (map (\<lambda>c. \<lparr>row = row lastPos, col = c,
                                   value' = cell codeMatrix (row lastPos) c\<rparr>) free))))"

text \<open>
  The test that replaces \<open>bestSolution\<close> by a new solution: there is none yet, or the
  new one completes more sequences, or as many on a shorter path.
\<close>

definition better :: "solution \<Rightarrow> solution option \<Rightarrow> bool" where
  "better s bestSolution =
     (case bestSolution of
        None \<Rightarrow> True
      | Some b \<Rightarrow>
          length (completedSequences s) > length (completedSequences b) \<or>
          (length (completedSequences s) = length (completedSequences b) \<and>
           length (path s) < length (path b)))"

text \<open>
  The loop \<open>for (const move of possibleMoves)\<close>, over the results of the recursive
  calls for the moves, in the order of the moves: \<open>n\<close> is the number of required
  sequences, \<open>bestSolution\<close> the best result so far (\<open>None\<close> is \<open>null\<close>). A call that
  throws ends the loop with its error; a result that completes all \<open>n\<close> sequences is
  returned at once, and the results after it are not looked at.
\<close>

fun tryMoves ::
  "nat \<Rightarrow> (error + solution option) list \<Rightarrow> solution option \<Rightarrow> error + solution option" where
  "tryMoves n [] bestSolution = Inr bestSolution"
| "tryMoves n (result # results) bestSolution =
     (case result of
        Inl e \<Rightarrow> Inl e
      | Inr None \<Rightarrow> tryMoves n results bestSolution
      | Inr (Some s) \<Rightarrow>
          (let bestSolution' = (if better s bestSolution then Some s else bestSolution) in
           if length (completedSequences s) = n then Inr (Some s)
           else tryMoves n results bestSolution'))"

text \<open>
  The set of completed indices is kept as the list of its elements in insertion order,
  which is the order \<open>Array.from\<close> lists them in. The loop over the required sequences
  adds, in increasing order, every index that is not in the caller's set and whose sequence
  is a subsequence of the path's values.
\<close>

definition newCompleted :: "token list list \<Rightarrow> token option list \<Rightarrow> nat list \<Rightarrow> nat list" where
  "newCompleted requiredSequences pathValues completed =
     completed @
     filter (\<lambda>i. i \<notin> set completed \<and>
                 isSubsequence pathValues (map Some (requiredSequences ! i)))
       [0..<length requiredSequences]"

text \<open>\<open>nextDirection === 'row' ? 'col' : 'row'\<close>\<close>

definition flip :: "direction \<Rightarrow> direction" where
  "flip nextDirection = (if nextDirection = Row then Col else Row)"

text \<open>
  \<open>explorePath\<close>: the buffer check comes first and returns the caller's set as it is;
  only a path shorter than the buffer has its values scanned. A path with no move left
  returns \<open>null\<close>. The moves are tried in increasing order of \<open>evaluateMove\<close>
  (\<open>Array.prototype.sort\<close> is stable, and so is \<open>sort_key\<close>).
\<close>

function explorePath ::
  "token list list \<Rightarrow> token list list \<Rightarrow> nat \<Rightarrow> position list \<Rightarrow> (nat \<times> nat) set
     \<Rightarrow> direction \<Rightarrow> nat list \<Rightarrow> error + solution option" where
  "explorePath codeMatrix requiredSequences bufferSize currentPath visited nextDirection completed =
     (if bufferSize \<le> length currentPath
      then Inr (Some \<lparr>path = currentPath, completedSequences = completed\<rparr>)
      else
        let pathValues = map value' currentPath;
            newCompletedSequences = newCompleted requiredSequences pathValues completed
        in
          if length newCompletedSequences = length requiredSequences
          then Inr (Some \<lparr>path = currentPath, completedSequences = newCompletedSequences\<rparr>)
          else
            (case possibleMoves codeMatrix currentPath visited nextDirection of
               Inl e \<Rightarrow> Inl e
             | Inr moves \<Rightarrow>
                 tryMoves (length requiredSequences)
                   (map (\<lambda>move. explorePath codeMatrix requiredSequences bufferSize
                                  (currentPath @ [move])
                                  (insert (row move, col move) visited)
                                  (flip nextDirection) newCompletedSequences)
                      (sort_key (\<lambda>move. evaluateMove requiredSequences pathValues
                                           (value' move) newCompletedSequences) moves))
                   None))"
  by pat_completeness auto
termination
  by (relation "measure (\<lambda>(codeMatrix, requiredSequences, bufferSize, currentPath, rest).
        bufferSize - length currentPath)") auto

declare explorePath.simps [simp del]

text \<open>
  The loop of \<open>solve\<close> over the start columns, collecting the results that are not null.
  Reading \<open>codeMatrix[0][col]\<close> throws when there is no row 0; \<open>solve\<close> runs the loop over
  the columns below \<open>codeMatrix.length\<close>, so an empty matrix never enters the body.
\<close>

fun startTrees ::
  "token list list \<Rightarrow> token list list \<Rightarrow> nat \<Rightarrow> nat list \<Rightarrow> error + solution list" where
  "startTrees codeMatrix requiredSequences bufferSize [] = Inr []"
| "startTrees codeMatrix requiredSequences bufferSize (c # cols) =
     (if codeMatrix = [] then Inl TypeError
      else
        let initialButton = cell codeMatrix 0 c;
            initialPath = [\<lparr>row = 0, col = c, value' = initialButton\<rparr>]
        in case explorePath codeMatrix requiredSequences bufferSize initialPath {(0, c)} Col [] of
             Inl e \<Rightarrow> Inl e
           | Inr r \<Rightarrow>
               (case startTrees codeMatrix requiredSequences bufferSize cols of
                  Inl e \<Rightarrow> Inl e
                | Inr solutions \<Rightarrow>
                    Inr (case r of None \<Rightarrow> solutions | Some s \<Rightarrow> s # solutions)))"

text \<open>
  \<open>Array.prototype.sort\<close> is stable, and so is \<open>sort_key\<close>: the comparator
  \<open>b.completedSequences.length - a.completedSequences.length\<close> orders by decreasing count
  and keeps the start-column order among equal counts.
\<close>

definition solve :: "token list list \<Rightarrow> token list list \<Rightarrow> nat \<Rightarrow> error + solution" where
  "solve codeMatrix requiredSequences bufferSize =
     (case startTrees codeMatrix requiredSequences bufferSize [0..<length codeMatrix] of
        Inl e \<Rightarrow> Inl e
      | Inr solutions \<Rightarrow>
          if solutions = [] then Inr \<lparr>path = [], completedSequences = []\<rparr>
          else Inr (hd (sort_key (\<lambda>s. - int (length (completedSequences s))) solutions)))"

text \<open>
  The exported function; its third parameter defaults to 7 when the caller leaves it out,
  and is explicit here.
\<close>

definition solveBreachProtocol ::
  "token list list \<Rightarrow> token list list \<Rightarrow> nat \<Rightarrow> error + solution" where
  "solveBreachProtocol codeMatrix requiredSequences bufferSize =
     solve codeMatrix requiredSequences bufferSize"


section \<open>Notions used in the statements and proofs\<close>

text \<open>
  The scan of \<open>isSubsequence\<close> on the lists themselves: how many leading tokens of
  \<open>ys\<close> are matched greedily, left to right, in \<open>xs\<close>.
\<close>

fun greedy :: "'a list \<Rightarrow> 'a list \<Rightarrow> nat" where
  "greedy [] ys = 0"
| "greedy (x # xs) [] = 0"
| "greedy (x # xs) (y # ys) = (if x = y then Suc (greedy xs ys) else greedy xs (y # ys))"

text \<open>
  The specification's subsequence predicate: \<open>idx\<close> lists strictly increasing indices
  \<open>i0 < i1 < \<dots> < ik\<close> into \<open>array\<close>, one for each token of \<open>subsequence\<close>, with
  \<open>array[i_j] = subsequence[j]\<close>.
\<close>

definition indexAssignment :: "'a list \<Rightarrow> 'a list \<Rightarrow> nat list \<Rightarrow> bool" where
  "indexAssignment array subsequence idx \<longleftrightarrow>
     length idx = length subsequence \<and> sorted_wrt (<) idx \<and>
     (\<forall>j < length subsequence. idx ! j < length array \<and> array ! (idx ! j) = subsequence ! j)"

text \<open>
  Movement legality of the positions \<open>ms\<close> that follow the position \<open>p\<close>, when the next
  selection is taken in direction \<open>d\<close>: \<open>Col\<close> keeps the column, \<open>Row\<close> keeps the row, and
  the direction alternates.
\<close>

fun legalFrom :: "direction \<Rightarrow> position \<Rightarrow> position list \<Rightarrow> bool" where
  "legalFrom d p [] = True"
| "legalFrom d p (m # ms) =
     ((if d = Col then col m = col p else row m = row p) \<and> legalFrom (flip d) m ms)"

text \<open>
  Every index of the set \<open>completed\<close> names a required sequence that the scan finds in the
  token values \<open>vals\<close>.
\<close>

definition sound :: "token list list \<Rightarrow> token option list \<Rightarrow> nat list \<Rightarrow> bool" where
  "sound requiredSequences vals completed \<longleftrightarrow>
     (\<forall>i \<in> set completed.
        i < length requiredSequences \<and>
        isSubsequence vals (map Some (requiredSequences ! i)))"

section \<open>The scan decides subsequence containment\<close>

lemma greedy_Nil2 [simp]: "greedy xs [] = 0"
  by (cases xs) simp_all

lemma isSubsequence_loop_greedy:
  "i \<le> length array \<Longrightarrow> subIdx \<le> length subsequence \<Longrightarrow>
   isSubsequence_loop array subsequence i subIdx =
     subIdx + greedy (drop i array) (drop subIdx subsequence)"
proof (induction array subsequence i subIdx rule: isSubsequence_loop.induct)
  case (1 array subsequence i subIdx)
  show ?case
  proof (cases "i < length array \<and> subIdx < length subsequence")
    case True
    then have d: "drop i array = array ! i # drop (Suc i) array"
      "drop subIdx subsequence = subsequence ! subIdx # drop (Suc subIdx) subsequence"
      by (simp_all add: Cons_nth_drop_Suc)
    show ?thesis
    proof (cases "array ! i = subsequence ! subIdx")
      case eq: True
      with True "1.IH"(1) show ?thesis
        by (subst isSubsequence_loop.simps) (simp add: d)
    next
      case neq: False
      with True "1.IH"(2) "1.prems" show ?thesis
        by (subst isSubsequence_loop.simps) (simp add: d)
    qed
  next
    case False
    with "1.prems" have "drop i array = [] \<or> drop subIdx subsequence = []"
      by auto
    then have "greedy (drop i array) (drop subIdx subsequence) = 0"
      by auto
    with False show ?thesis
      by (subst isSubsequence_loop.simps) auto
  qed
qed

lemma greedy_subseq: "greedy xs ys = length ys \<longleftrightarrow> subseq ys xs"
proof (induction xs ys rule: greedy.induct)
  case (1 ys)
  then show ?case by auto
next
  case (2 x xs)
  then show ?case by simp
next
  case (3 x xs y ys)
  then show ?case by (auto simp: subseq_Cons2_neq)
qed

lemma isSubsequence_subseq: "isSubsequence array subsequence \<longleftrightarrow> subseq subsequence array"
  by (simp add: isSubsequence_def isSubsequence_loop_greedy greedy_subseq)

lemma indexAssignment_Nil [simp]: "indexAssignment xs [] idx \<longleftrightarrow> idx = []"
  by (auto simp: indexAssignment_def)

lemma indexAssignment_shift:
  "indexAssignment xs ys idx \<Longrightarrow> indexAssignment (x # xs) ys (map Suc idx)"
  by (auto simp: indexAssignment_def sorted_wrt_map)

lemma indexAssignment_Cons:
  assumes "indexAssignment xs ys idx"
  shows "indexAssignment (x # xs) (x # ys) (0 # map Suc idx)"
proof -
  have "\<forall>j < length (x # ys). (0 # map Suc idx) ! j < length (x # xs) \<and>
          (x # xs) ! ((0 # map Suc idx) ! j) = (x # ys) ! j"
  proof (intro allI impI)
    fix j assume "j < length (x # ys)"
    with assms show "(0 # map Suc idx) ! j < length (x # xs) \<and>
          (x # xs) ! ((0 # map Suc idx) ! j) = (x # ys) ! j"
      by (cases j) (auto simp: indexAssignment_def)
  qed
  with assms show ?thesis
    by (auto simp: indexAssignment_def sorted_wrt_map)
qed

lemma subseq_indexAssignment: "subseq ys xs \<Longrightarrow> \<exists>idx. indexAssignment xs ys idx"
proof (induction rule: list_emb.induct)
  case (list_emb_Nil ys)
  then show ?case by simp
next
  case (list_emb_Cons xs ys y)
  then show ?case by (blast intro: indexAssignment_shift)
next
  case (list_emb_Cons2 x y xs ys)
  then show ?case by (blast intro: indexAssignment_Cons)
qed

lemma indexAssignment_unshift:
  assumes "indexAssignment (x # xs) ys idx" "\<forall>k \<in> set idx. 0 < k"
  shows "indexAssignment xs ys (map (\<lambda>k. k - 1) idx)"
proof -
  have s: "sorted_wrt (<) (map (\<lambda>k. k - 1) idx)"
    using assms by (auto simp: indexAssignment_def sorted_wrt_map
        intro!: sorted_wrt_mono_rel[of idx "(<)"])
  have "\<forall>j < length ys. map (\<lambda>k. k - 1) idx ! j < length xs \<and>
          xs ! (map (\<lambda>k. k - 1) idx ! j) = ys ! j"
  proof (intro allI impI)
    fix j assume j: "j < length ys"
    with assms have "idx ! j \<in> set idx" "idx ! j < length (x # xs)"
      "(x # xs) ! (idx ! j) = ys ! j"
      by (auto simp: indexAssignment_def)
    with assms(2) j assms(1) show "map (\<lambda>k. k - 1) idx ! j < length xs \<and>
          xs ! (map (\<lambda>k. k - 1) idx ! j) = ys ! j"
      by (cases "idx ! j") (auto simp: indexAssignment_def)
  qed
  with s assms show ?thesis by (auto simp: indexAssignment_def)
qed

lemma indexAssignment_subseq: "indexAssignment xs ys idx \<Longrightarrow> subseq ys xs"
proof (induction xs arbitrary: ys idx)
  case Nil
  then have "ys = []" by (cases ys) (auto simp: indexAssignment_def)
  then show ?case by simp
next
  case (Cons x xs)
  show ?case
  proof (cases ys)
    case Nil
    then show ?thesis by simp
  next
    case ys: (Cons y ys')
    with Cons.prems obtain i idx' where idx: "idx = i # idx'"
      by (cases idx) (auto simp: indexAssignment_def)
    show ?thesis
    proof (cases i)
      case 0
      from Cons.prems ys idx 0 have xy: "x = y"
        by (auto simp: indexAssignment_def)
      have pos: "\<forall>k \<in> set idx'. 0 < k"
        using Cons.prems idx 0 by (auto simp: indexAssignment_def)
      have "indexAssignment (x # xs) ys' idx'"
        unfolding indexAssignment_def
      proof (intro conjI allI impI)
        show "length idx' = length ys'" "sorted_wrt (<) idx'"
          using Cons.prems ys idx by (auto simp: indexAssignment_def)
      next
        fix j assume "j < length ys'"
        then have "Suc j < length ys" by (simp add: ys)
        with Cons.prems have "idx ! Suc j < length (x # xs) \<and>
            (x # xs) ! (idx ! Suc j) = ys ! Suc j"
          unfolding indexAssignment_def by blast
        then show "idx' ! j < length (x # xs)" "(x # xs) ! (idx' ! j) = ys' ! j"
          by (simp_all add: ys idx)
      qed
      from indexAssignment_unshift[OF this pos] Cons.IH have "subseq ys' xs"
        by blast
      with xy ys show ?thesis by simp
    next
      case (Suc i')
      have pos: "\<forall>k \<in> set idx. 0 < k"
        using Cons.prems idx Suc by (auto simp: indexAssignment_def)
      from indexAssignment_unshift[OF Cons.prems pos] Cons.IH have "subseq ys xs"
        by blast
      then show ?thesis by (rule list_emb_Cons)
    qed
  qed
qed

lemma isSubsequence_append:
  "isSubsequence xs ys \<Longrightarrow> isSubsequence (xs @ zs) ys"
  by (simp add: isSubsequence_subseq list_emb_append_mono[of _ ys xs "[]" zs, simplified])

lemma isSubsequence_butlast:
  "isSubsequence (butlast xs) ys \<Longrightarrow> isSubsequence xs ys"
  using isSubsequence_append[of "butlast xs" ys "[last xs]"]
  by (cases "xs = []") simp_all

section \<open>The loop over the moves\<close>

lemma tryMoves_SomeD:
  "tryMoves n results best = Inr (Some s) \<Longrightarrow> best = Some s \<or> Inr (Some s) \<in> set results"
proof (induction results arbitrary: best)
  case Nil
  then show ?case by simp
next
  case (Cons x results)
  show ?case
  proof (cases x)
    case (Inl e)
    with Cons.prems show ?thesis by simp
  next
    case (Inr res)
    show ?thesis
    proof (cases res)
      case None
      with Inr Cons show ?thesis by auto
    next
      case (Some t)
      show ?thesis
      proof (cases "length (completedSequences t) = n")
        case True
        with Inr Some Cons.prems show ?thesis by simp
      next
        case False
        with Inr Some Cons.prems
        have "tryMoves n results (if better t best then Some t else best) = Inr (Some s)"
          by simp
        from Cons.IH[OF this] Inr Some show ?thesis
          by (auto split: if_splits)
      qed
    qed
  qed
qed

lemma tryMoves_no_error:
  "\<forall>x \<in> set results. \<exists>res. x = Inr res \<Longrightarrow> \<exists>res. tryMoves n results best = Inr res"
proof (induction results arbitrary: best)
  case Nil
  then show ?case by simp
next
  case (Cons x results)
  then obtain res where "x = Inr res" by auto
  with Cons show ?case
    by (cases res) (auto simp: Let_def)
qed

section \<open>The moves\<close>

lemma possibleMoves_legal:
  assumes "possibleMoves g p v d = Inr moves" "m \<in> set moves" "p \<noteq> []"
  shows "(if d = Col then col m = col (last p) else row m = row (last p))"
  using assms
  by (cases d) (auto simp: possibleMoves_def Let_def split: if_splits)

lemma possibleMoves_row:
  assumes "possibleMoves g p v d = Inr moves" "m \<in> set moves"
  shows "row m < length g"
  using assms
  by (cases d) (auto simp: possibleMoves_def Let_def split: if_splits)

lemma possibleMoves_no_error:
  assumes "p \<noteq> []" "row (last p) < length g"
  shows "\<exists>moves. possibleMoves g p v d = Inr moves"
  using assms by (cases d) (auto simp: possibleMoves_def Let_def)

section \<open>Results of the search\<close>

text \<open>One unfolding of \<open>explorePath\<close>, for a result that is a solution.\<close>

lemma explorePath_SomeD:
  assumes "explorePath g r b p v d c = Inr (Some s)"
  shows "(b \<le> length p \<and> s = \<lparr>path = p, completedSequences = c\<rparr>) \<or>
         (length p < b \<and> length (newCompleted r (map value' p) c) = length r \<and>
            s = \<lparr>path = p, completedSequences = newCompleted r (map value' p) c\<rparr>) \<or>
         (length p < b \<and> length (newCompleted r (map value' p) c) \<noteq> length r \<and>
            (\<exists>moves m. possibleMoves g p v d = Inr moves \<and> m \<in> set moves \<and>
               explorePath g r b (p @ [m]) (insert (row m, col m) v) (flip d)
                 (newCompleted r (map value' p) c) = Inr (Some s)))"
proof (cases "b \<le> length p")
  case True
  with assms show ?thesis by (simp add: explorePath.simps[of g r b p v d c] Let_def)
next
  case nb: False
  show ?thesis
  proof (cases "length (newCompleted r (map value' p) c) = length r")
    case True
    with nb assms show ?thesis by (simp add: explorePath.simps[of g r b p v d c] Let_def)
  next
    case nd: False
    show ?thesis
    proof (cases "possibleMoves g p v d")
      case (Inl e)
      with nb nd assms show ?thesis by (simp add: explorePath.simps[of g r b p v d c] Let_def)
    next
      case (Inr moves)
      with nb nd assms
      have "tryMoves (length r)
              (map (\<lambda>move. explorePath g r b (p @ [move]) (insert (row move, col move) v)
                      (flip d) (newCompleted r (map value' p) c))
                 (sort_key (\<lambda>move. evaluateMove r (map value' p) (value' move)
                    (newCompleted r (map value' p) c)) moves)) None = Inr (Some s)"
        by (simp add: explorePath.simps[of g r b p v d c] Let_def)
      from tryMoves_SomeD[OF this] obtain m where "m \<in> set moves"
        "explorePath g r b (p @ [m]) (insert (row m, col m) v) (flip d)
           (newCompleted r (map value' p) c) = Inr (Some s)"
        by auto
      with nb nd Inr show ?thesis by auto
    qed
  qed
qed

lemma explorePath_length:
  "explorePath g r b p v d c = Inr (Some s) \<Longrightarrow> length (path s) \<le> max b (length p)"
proof (induction g r b p v d c rule: explorePath.induct)
  case (1 g r b p v d c)
  from explorePath_SomeD[OF "1.prems"] show ?case
  proof (elim disjE conjE exE)
    fix moves m
    assume a: "length p < b" "length (newCompleted r (map value' p) c) \<noteq> length r"
      "possibleMoves g p v d = Inr moves" "m \<in> set moves"
      "explorePath g r b (p @ [m]) (insert (row m, col m) v) (flip d)
         (newCompleted r (map value' p) c) = Inr (Some s)"
    then have "length (path s) \<le> max b (length (p @ [m]))"
      by (intro "1.IH"[of "map value' p" "newCompleted r (map value' p) c" moves m]) auto
    with a show ?thesis by simp
  qed auto
qed

lemma explorePath_legal:
  "explorePath g r b p v d c = Inr (Some s) \<Longrightarrow> p \<noteq> [] \<Longrightarrow>
   \<exists>ext. path s = p @ ext \<and> legalFrom d (last p) ext"
proof (induction g r b p v d c rule: explorePath.induct)
  case (1 g r b p v d c)
  from explorePath_SomeD[OF "1.prems"(1)] show ?case
  proof (elim disjE conjE exE)
    fix moves m
    assume a: "length p < b" "length (newCompleted r (map value' p) c) \<noteq> length r"
      "possibleMoves g p v d = Inr moves" "m \<in> set moves"
      "explorePath g r b (p @ [m]) (insert (row m, col m) v) (flip d)
         (newCompleted r (map value' p) c) = Inr (Some s)"
    then have "\<exists>ext. path s = (p @ [m]) @ ext \<and> legalFrom (flip d) (last (p @ [m])) ext"
      by (intro "1.IH"[of "map value' p" "newCompleted r (map value' p) c" moves m]) auto
    then obtain ext where ext: "path s = p @ m # ext" "legalFrom (flip d) m ext"
      by auto
    from possibleMoves_legal[OF a(3,4) "1.prems"(2)] ext
    have "legalFrom d (last p) (m # ext)" by simp
    with ext show ?thesis by blast
  qed auto
qed

lemma newCompleted_mem:
  "i \<in> set (newCompleted r vals c) \<longleftrightarrow>
     i \<in> set c \<or> (i < length r \<and> isSubsequence vals (map Some (r ! i)))"
  by (auto simp: newCompleted_def)

lemma sound_newCompleted: "sound r vals c \<Longrightarrow> sound r vals (newCompleted r vals c)"
  by (auto simp: sound_def newCompleted_mem)

lemma sound_append: "sound r vals c \<Longrightarrow> sound r (vals @ extra) c"
  by (auto simp: sound_def intro: isSubsequence_append)

lemma explorePath_sound:
  "explorePath g r b p v d c = Inr (Some s) \<Longrightarrow> sound r (map value' p) c \<Longrightarrow>
   sound r (map value' (path s)) (completedSequences s)"
proof (induction g r b p v d c rule: explorePath.induct)
  case (1 g r b p v d c)
  from explorePath_SomeD[OF "1.prems"(1)] show ?case
  proof (elim disjE conjE exE)
    fix moves m
    assume a: "length p < b" "length (newCompleted r (map value' p) c) \<noteq> length r"
      "possibleMoves g p v d = Inr moves" "m \<in> set moves"
      "explorePath g r b (p @ [m]) (insert (row m, col m) v) (flip d)
         (newCompleted r (map value' p) c) = Inr (Some s)"
    have "sound r (map value' (p @ [m])) (newCompleted r (map value' p) c)"
      using sound_append[OF sound_newCompleted[OF "1.prems"(2)], of "[value' m]"] by simp
    with a show ?thesis
      by (intro "1.IH"[of "map value' p" "newCompleted r (map value' p) c" moves m]) auto
  next
    assume "length p < b" "length (newCompleted r (map value' p) c) = length r"
      "s = \<lparr>path = p, completedSequences = newCompleted r (map value' p) c\<rparr>"
    with sound_newCompleted[OF "1.prems"(2)] show ?thesis by simp
  next
    assume "b \<le> length p" "s = \<lparr>path = p, completedSequences = c\<rparr>"
    with "1.prems"(2) show ?thesis by simp
  qed
qed

text \<open>For a full buffer, the completed set was judged on the path without its last token.\<close>

lemma explorePath_full_buffer:
  "explorePath g r b p v d c = Inr (Some s) \<Longrightarrow> sound r (map value' (butlast p)) c \<Longrightarrow>
   length (path s) = b \<Longrightarrow>
   sound r (map value' (butlast (path s))) (completedSequences s)"
proof (induction g r b p v d c rule: explorePath.induct)
  case (1 g r b p v d c)
  from explorePath_SomeD[OF "1.prems"(1)] show ?case
  proof (elim disjE conjE exE)
    fix moves m
    assume a: "length p < b" "length (newCompleted r (map value' p) c) \<noteq> length r"
      "possibleMoves g p v d = Inr moves" "m \<in> set moves"
      "explorePath g r b (p @ [m]) (insert (row m, col m) v) (flip d)
         (newCompleted r (map value' p) c) = Inr (Some s)"
    have "sound r (map value' p) c"
      using "1.prems"(2) isSubsequence_butlast[of "map value' p"]
      by (auto simp: sound_def map_butlast)
    then have "sound r (map value' (butlast (p @ [m]))) (newCompleted r (map value' p) c)"
      by (simp add: sound_newCompleted)
    with a "1.prems"(3) show ?thesis
      by (intro "1.IH"[of "map value' p" "newCompleted r (map value' p) c" moves m]) auto
  next
    assume "length p < b" "length (newCompleted r (map value' p) c) = length r"
      "s = \<lparr>path = p, completedSequences = newCompleted r (map value' p) c\<rparr>"
    with "1.prems"(3) show ?thesis by simp
  next
    assume "b \<le> length p" "s = \<lparr>path = p, completedSequences = c\<rparr>"
    with "1.prems"(2) show ?thesis by simp
  qed
qed

text \<open>
  A path that is not empty and stays inside the rows of the matrix never makes the search
  throw.
\<close>

lemma explorePath_no_error:
  "p \<noteq> [] \<Longrightarrow> \<forall>q \<in> set p. row q < length g \<Longrightarrow> \<exists>res. explorePath g r b p v d c = Inr res"
proof (induction g r b p v d c rule: explorePath.induct)
  case (1 g r b p v d c)
  let ?nc = "newCompleted r (map value' p) c"
  show ?case
  proof (cases "b \<le> length p \<or> length ?nc = length r")
    case True
    then show ?thesis by (auto simp: explorePath.simps[of g r b p v d c] Let_def)
  next
    case False
    from "1.prems" have "row (last p) < length g" by simp
    from possibleMoves_no_error[OF "1.prems"(1) this]
    obtain moves where moves: "possibleMoves g p v d = Inr moves" by blast
    let ?sorted = "sort_key (\<lambda>move. evaluateMove r (map value' p) (value' move) ?nc) moves"
    let ?call = "\<lambda>m. explorePath g r b (p @ [m]) (insert (row m, col m) v) (flip d) ?nc"
    have "\<forall>x \<in> set (map ?call ?sorted). \<exists>res. x = Inr res"
    proof
      fix x assume "x \<in> set (map ?call ?sorted)"
      then obtain m where m: "m \<in> set ?sorted" "x = ?call m" by auto
      then have "row m < length g" using possibleMoves_row[OF moves] by simp
      with "1.prems" m False moves have "\<exists>res. ?call m = Inr res"
        by (intro "1.IH"[of "map value' p" ?nc moves m]) auto
      with m show "\<exists>res. x = Inr res" by simp
    qed
    from tryMoves_no_error[OF this] False moves show ?thesis
      by (simp add: explorePath.simps[of g r b p v d c] Let_def)
  qed
qed

section \<open>The start trees and the choice among them\<close>

lemma startTrees_mem:
  "startTrees g r b cols = Inr sols \<Longrightarrow> s \<in> set sols \<Longrightarrow>
   \<exists>c \<in> set cols. explorePath g r b [\<lparr>row = 0, col = c, value' = cell g 0 c\<rparr>] {(0, c)} Col []
      = Inr (Some s)"
proof (induction cols arbitrary: sols)
  case Nil
  then show ?case by simp
next
  case (Cons c cols)
  then show ?case
    by (auto simp: Let_def split: if_splits sum.splits option.splits)
qed

lemma startTrees_no_error:
  "g \<noteq> [] \<Longrightarrow> \<exists>sols. startTrees g r b cols = Inr sols"
proof (induction cols)
  case Nil
  then show ?case by simp
next
  case (Cons c cols)
  have "\<exists>res. explorePath g r b [\<lparr>row = 0, col = c, value' = cell g 0 c\<rparr>] {(0, c)} Col []
          = Inr res"
    using Cons.prems by (intro explorePath_no_error) auto
  with Cons show ?case
    by (auto simp: Let_def)
qed

lemma solve_no_error: "\<exists>s. solve g r b = Inr s"
proof (cases "g = []")
  case True
  then show ?thesis by (simp add: solve_def)
next
  case False
  from startTrees_no_error[OF this, of r b "[0..<length g]"] show ?thesis
    by (auto simp: solve_def)
qed

lemma solve_cases:
  assumes "solve g r b = Inr s"
  shows "s = \<lparr>path = [], completedSequences = []\<rparr> \<or>
         (\<exists>c < length g. explorePath g r b [\<lparr>row = 0, col = c, value' = cell g 0 c\<rparr>] {(0, c)}
             Col [] = Inr (Some s))"
proof -
  from assms obtain sols where sols: "startTrees g r b [0..<length g] = Inr sols"
    by (auto simp: solve_def split: sum.splits)
  show ?thesis
  proof (cases "sols = []")
    case True
    with assms sols show ?thesis by (simp add: solve_def)
  next
    case False
    with assms sols
    have "s = hd (sort_key (\<lambda>s. - int (length (completedSequences s))) sols)"
      by (simp add: solve_def)
    moreover from False
    have "hd (sort_key (\<lambda>s. - int (length (completedSequences s))) sols) \<in> set sols"
      by (metis hd_in_set set_sort set_empty)
    ultimately have "s \<in> set sols" by simp
    from startTrees_mem[OF sols this] show ?thesis by auto
  qed
qed

lemma legalFrom_nth:
  "legalFrom d x ext \<Longrightarrow> i < length ext \<Longrightarrow>
   (if (d = Col) = even i then col (ext ! i) = col ((x # ext) ! i)
    else row (ext ! i) = row ((x # ext) ! i))"
proof (induction ext arbitrary: d x i)
  case Nil
  then show ?case by simp
next
  case (Cons m ms)
  show ?case
  proof (cases i)
    case 0
    with Cons.prems show ?thesis by (auto split: if_splits)
  next
    case (Suc j)
    with Cons.prems have "legalFrom (flip d) m ms" "j < length ms" by auto
    from Cons.IH[OF this] Suc show ?thesis
      by (cases d) (auto simp: flip_def split: if_splits)
  qed
qed

text \<open>The head of a stably sorted list is the first element of least key.\<close>

lemma hd_insort_key:
  "hd (insort_key f x ys) = (if ys = [] \<or> f x \<le> f (hd ys) then x else hd ys)"
  by (cases ys) auto

lemma hd_sort_key_first_least:
  fixes f :: "'a \<Rightarrow> int"
  shows "xs \<noteq> [] \<Longrightarrow>
    \<exists>i < length xs. hd (sort_key f xs) = xs ! i \<and>
      (\<forall>j < length xs. f (xs ! i) \<le> f (xs ! j)) \<and> (\<forall>j < i. f (xs ! i) < f (xs ! j))"
proof (induction xs)
  case Nil
  then show ?case by simp
next
  case (Cons x xs)
  show ?case
  proof (cases "xs = []")
    case True
    then show ?thesis by simp
  next
    case False
    from Cons.IH[OF this] obtain i where i: "i < length xs" "hd (sort_key f xs) = xs ! i"
      "\<forall>j < length xs. f (xs ! i) \<le> f (xs ! j)" "\<forall>j < i. f (xs ! i) < f (xs ! j)"
      by blast
    from False have ne: "sort_key f xs \<noteq> []" by (metis length_sort length_0_conv)
    show ?thesis
    proof (cases "f x \<le> f (xs ! i)")
      case True
      have "\<forall>j < length (x # xs). f ((x # xs) ! 0) \<le> f ((x # xs) ! j)"
      proof (intro allI impI)
        fix j assume "j < length (x # xs)"
        with True i(3) show "f ((x # xs) ! 0) \<le> f ((x # xs) ! j)"
          by (cases j) (auto intro: order_trans)
      qed
      moreover from True i(2) have "hd (sort_key f (x # xs)) = (x # xs) ! 0"
        by (simp add: hd_insort_key)
      ultimately show ?thesis by (intro exI[of _ 0]) simp
    next
      case False
      have a: "\<forall>j < length (x # xs). f ((x # xs) ! Suc i) \<le> f ((x # xs) ! j)"
      proof (intro allI impI)
        fix j assume "j < length (x # xs)"
        with False i(3) show "f ((x # xs) ! Suc i) \<le> f ((x # xs) ! j)"
          by (cases j) auto
      qed
      have b: "\<forall>j < Suc i. f ((x # xs) ! Suc i) < f ((x # xs) ! j)"
      proof (intro allI impI)
        fix j assume "j < Suc i"
        with False i(4) show "f ((x # xs) ! Suc i) < f ((x # xs) ! j)"
          by (cases j) auto
      qed
      from False i(2) ne have "hd (sort_key f (x # xs)) = (x # xs) ! Suc i"
        by (simp add: hd_insort_key)
      with a b i(1) show ?thesis by (intro exI[of _ "Suc i"]) simp
    qed
  qed
qed

text \<open>Every recursive call of \<open>explorePath\<close> decreases the room left in the buffer.\<close>

lemma explorePath_rel_measure:
  "explorePath_rel x y \<Longrightarrow>
   (x, y) \<in> measure (\<lambda>(codeMatrix, requiredSequences, bufferSize, currentPath, rest).
          bufferSize - length currentPath)"
  by (erule explorePath_rel.cases) auto

section \<open>The claims\<close>

text \<open>
  Claim C1 says that no movement-legal path within the buffer completes strictly more
  required sequences than the returned Solution. The code does not meet it: the buffer
  check of \<open>explorePath\<close> returns before the path with its last token is scanned. On the
  2 x 2 grid below with the one sequence AA BB and a buffer of 2, the returned path
  (0,0), (1,0) carries the tokens AA BB, which contain the sequence, and the returned
  completed set is empty.
\<close>

theorem solve_misses_sequence_completed_by_last_token:
  "solveBreachProtocol [[''AA'', ''BB''], [''BB'', ''AA'']] [[''AA'', ''BB'']] 2 =
     Inr \<lparr>path = [\<lparr>row = 0, col = 0, value' = Some ''AA''\<rparr>,
                 \<lparr>row = 1, col = 0, value' = Some ''BB''\<rparr>],
          completedSequences = []\<rparr> \<and>
   isSubsequence [Some ''AA'', Some ''BB''] (map Some ([[''AA'', ''BB'']] ! 0))"
  by code_simp

text \<open>
  Claim C2 says that for N >= 1 rows and bufferSize >= 1 the returned path is not empty,
  the empty Solution arising only for bufferSize 0. The code does not meet it: a path
  with no unvisited cell left in the line of its last position makes \<open>explorePath\<close> return
  null and drops the path with the sequences it has completed, where the return at a full
  buffer keeps both. On the 2 x 2 grid below, with the sequences AA BB and BB BB BB, every
  path is stuck after four positions: with a buffer of 5 both start trees return null and
  \<open>solve\<close> returns the empty Solution, while with a buffer of 4 the four-step path is
  returned with sequence 0 completed.
\<close>

theorem solve_dead_end_returns_empty_solution:
  "solveBreachProtocol [[''AA'', ''BB''], [''BB'', ''AA'']]
     [[''AA'', ''BB''], [''BB'', ''BB'', ''BB'']] 5 =
     Inr \<lparr>path = [], completedSequences = []\<rparr> \<and>
   solveBreachProtocol [[''AA'', ''BB''], [''BB'', ''AA'']]
     [[''AA'', ''BB''], [''BB'', ''BB'', ''BB'']] 4 =
     Inr \<lparr>path = [\<lparr>row = 0, col = 0, value' = Some ''AA''\<rparr>,
                 \<lparr>row = 1, col = 0, value' = Some ''BB''\<rparr>,
                 \<lparr>row = 1, col = 1, value' = Some ''AA''\<rparr>,
                 \<lparr>row = 0, col = 1, value' = Some ''BB''\<rparr>],
          completedSequences = [0]\<rparr>"
  by code_simp

text \<open>
  Claim C3 says that among the start trees a tie on the completed count is broken in
  favour of the strictly shorter path. \<open>solve\<close> sorts by the count alone: below, the tree of
  column 0 gives a path of length 2 and the tree of column 1 a path of length 1, both with
  one completed sequence, and the longer one is returned.
\<close>

theorem solve_keeps_longer_path_on_tie:
  "solveBreachProtocol [[''AA'', ''BB''], [''BB'', ''AA'']] [[''BB'']] 3 =
     Inr \<lparr>path = [\<lparr>row = 0, col = 0, value' = Some ''AA''\<rparr>,
                 \<lparr>row = 1, col = 0, value' = Some ''BB''\<rparr>],
          completedSequences = [0]\<rparr> \<and>
   explorePath [[''AA'', ''BB''], [''BB'', ''AA'']] [[''BB'']] 3
     [\<lparr>row = 0, col = 1, value' = Some ''BB''\<rparr>] {(0, 1)} Col [] =
     Inr (Some \<lparr>path = [\<lparr>row = 0, col = 1, value' = Some ''BB''\<rparr>], completedSequences = [0]\<rparr>)"
  by code_simp

text \<open>
  Claim C3, amended: the Solution returned by \<open>solve\<close> is the candidate of the first start
  column, in column order, whose completed count is the greatest among the candidates of
  all start trees; a tie on the count is broken in favour of the earlier start column, and
  the path length plays no part.
\<close>

theorem solve_first_tree_with_most_completed:
  assumes "startTrees g r b [0..<length g] = Inr sols" "sols \<noteq> []"
  shows "\<exists>i < length sols. solveBreachProtocol g r b = Inr (sols ! i) \<and>
     (\<forall>j < length sols. length (completedSequences (sols ! j))
          \<le> length (completedSequences (sols ! i))) \<and>
     (\<forall>j < i. length (completedSequences (sols ! j)) < length (completedSequences (sols ! i)))"
proof -
  from hd_sort_key_first_least[OF assms(2), of "\<lambda>s. - int (length (completedSequences s))"]
  obtain i where "i < length sols"
    "hd (sort_key (\<lambda>s. - int (length (completedSequences s))) sols) = sols ! i"
    "\<forall>j < length sols. length (completedSequences (sols ! j))
          \<le> length (completedSequences (sols ! i))"
    "\<forall>j < i. length (completedSequences (sols ! j)) < length (completedSequences (sols ! i))"
    by auto
  with assms show ?thesis
    by (intro exI[of _ i]) (simp add: solveBreachProtocol_def solve_def)
qed

theorem solve_first_tree_with_most_completed_witness:
  "\<exists>i < 2. solveBreachProtocol [[''AA'', ''BB''], [''BB'', ''AA'']] [[''BB'']] 3 =
       Inr ([\<lparr>path = [\<lparr>row = 0, col = 0, value' = Some ''AA''\<rparr>,
                      \<lparr>row = 1, col = 0, value' = Some ''BB''\<rparr>],
               completedSequences = [0]\<rparr>,
             \<lparr>path = [\<lparr>row = 0, col = 1, value' = Some ''BB''\<rparr>],
               completedSequences = [0]\<rparr>] ! i)"
proof -
  let ?sols = "[\<lparr>path = [\<lparr>row = 0, col = 0, value' = Some ''AA''\<rparr>,
                      \<lparr>row = 1, col = 0, value' = Some ''BB''\<rparr>],
               completedSequences = [0]\<rparr>,
             \<lparr>path = [\<lparr>row = 0, col = 1, value' = Some ''BB''\<rparr>],
               completedSequences = [0]\<rparr>]"
  have h: "startTrees [[''AA'', ''BB''], [''BB'', ''AA'']] [[''BB'']] 3
          [0..<length [[''AA'', ''BB''], [''BB'', ''AA'']]] = Inr ?sols"
    by code_simp
  have n: "?sols \<noteq> []" by simp
  from solve_first_tree_with_most_completed[OF h n] obtain i where i: "i < length ?sols"
    "solveBreachProtocol [[''AA'', ''BB''], [''BB'', ''AA'']] [[''BB'']] 3 = Inr (?sols ! i)"
    by blast
  from i(1) have "i < 2" by simp
  with i(2) show ?thesis by blast
qed

text \<open>
  Claim C4: entered with a path whose length equals bufferSize, \<open>explorePath\<close> returns at
  once the path with exactly the completed set its caller passed in; consequently, in a
  Solution whose path fills the buffer, a required sequence that is a subsequence of the
  path but not of the path without its last token is not listed in
  \<open>completedSequences\<close>.
\<close>

theorem explorePath_full_buffer_keeps_callers_set:
  "(length currentPath = bufferSize \<longrightarrow>
      explorePath g r bufferSize currentPath visited d completed =
        Inr (Some \<lparr>path = currentPath, completedSequences = completed\<rparr>)) \<and>
   (solveBreachProtocol g r bufferSize = Inr s \<and> length (path s) = bufferSize \<and>
      i < length r \<and>
      isSubsequence (map value' (path s)) (map Some (r ! i)) \<and>
      \<not> isSubsequence (map value' (butlast (path s))) (map Some (r ! i))
    \<longrightarrow> i \<notin> set (completedSequences s))"
proof (intro conjI impI)
  assume "length currentPath = bufferSize"
  then show "explorePath g r bufferSize currentPath visited d completed =
        Inr (Some \<lparr>path = currentPath, completedSequences = completed\<rparr>)"
    by (simp add: explorePath.simps[of g r bufferSize currentPath visited d completed])
next
  assume a: "solveBreachProtocol g r bufferSize = Inr s \<and> length (path s) = bufferSize \<and>
      i < length r \<and>
      isSubsequence (map value' (path s)) (map Some (r ! i)) \<and>
      \<not> isSubsequence (map value' (butlast (path s))) (map Some (r ! i))"
  then have "solve g r bufferSize = Inr s" by (simp add: solveBreachProtocol_def)
  from solve_cases[OF this] show "i \<notin> set (completedSequences s)"
  proof
    assume "s = \<lparr>path = [], completedSequences = []\<rparr>"
    then show ?thesis by simp
  next
    assume "\<exists>c < length g. explorePath g r bufferSize
        [\<lparr>row = 0, col = c, value' = cell g 0 c\<rparr>] {(0, c)} Col [] = Inr (Some s)"
    then obtain c where
      "explorePath g r bufferSize [\<lparr>row = 0, col = c, value' = cell g 0 c\<rparr>] {(0, c)} Col []
         = Inr (Some s)" by blast
    from explorePath_full_buffer[OF this] a
    have "sound r (map value' (butlast (path s))) (completedSequences s)"
      by (simp add: sound_def)
    with a show ?thesis by (auto simp: sound_def)
  qed
qed

theorem explorePath_full_buffer_keeps_callers_set_witness:
  "explorePath [[''AA'', ''BB''], [''BB'', ''AA'']] [[''AA'', ''BB'']] 2
     [\<lparr>row = 0, col = 0, value' = Some ''AA''\<rparr>, \<lparr>row = 1, col = 0, value' = Some ''BB''\<rparr>]
     {(0, 0), (1, 0)} Row [] =
     Inr (Some \<lparr>path = [\<lparr>row = 0, col = 0, value' = Some ''AA''\<rparr>,
                       \<lparr>row = 1, col = 0, value' = Some ''BB''\<rparr>],
                completedSequences = []\<rparr>) \<and>
   solveBreachProtocol [[''AA'', ''BB''], [''BB'', ''AA'']] [[''AA'', ''BB'']] 2 =
     Inr \<lparr>path = [\<lparr>row = 0, col = 0, value' = Some ''AA''\<rparr>,
                 \<lparr>row = 1, col = 0, value' = Some ''BB''\<rparr>],
          completedSequences = []\<rparr> \<and>
   isSubsequence [Some ''AA'', Some ''BB''] (map Some [''AA'', ''BB'']) \<and>
   \<not> isSubsequence [Some ''AA''] (map Some [''AA'', ''BB'']) \<and>
   (0::nat) \<notin> set []"
proof -
  let ?p = "[\<lparr>row = 0, col = 0, value' = Some ''AA''\<rparr>, \<lparr>row = 1, col = 0, value' = Some ''BB''\<rparr>]"
  let ?s = "\<lparr>path = ?p, completedSequences = []\<rparr>"
  have e: "solveBreachProtocol [[''AA'', ''BB''], [''BB'', ''AA'']] [[''AA'', ''BB'']] 2 = Inr ?s"
    by code_simp
  have f: "isSubsequence [Some ''AA'', Some ''BB''] (map Some [''AA'', ''BB''])"
    by code_simp
  have n: "\<not> isSubsequence [Some ''AA''] (map Some [''AA'', ''BB''])"
    by code_simp
  from explorePath_full_buffer_keeps_callers_set[of ?p 2 "[[''AA'', ''BB''], [''BB'', ''AA'']]"
      "[[''AA'', ''BB'']]" "{(0, 0), (1, 0)}" Row "[]" ?s 0] e f n
  show ?thesis by simp
qed

text \<open>
  Claim C5 says that for Scenario A (the 2 x 2 grid AA BB / BB AA, the one sequence AA AA,
  bufferSize 2) the result is a 2-step path through both AA cells with
  \<open>completedSequences = [0]\<close>. No such Solution is returned: the second selection stays in
  the column of the first, and the two AA cells share neither row nor column.
\<close>

theorem scenario_A_not_completed:
  "\<not> (\<exists>s. solveBreachProtocol [[''AA'', ''BB''], [''BB'', ''AA'']] [[''AA'', ''AA'']] 2 = Inr s \<and>
          (completedSequences s = [0] \<or>
           \<lparr>row = 1, col = 1, value' = Some ''AA''\<rparr> \<in> set (path s)))"
proof -
  have "solveBreachProtocol [[''AA'', ''BB''], [''BB'', ''AA'']] [[''AA'', ''AA'']] 2 =
     Inr \<lparr>path = [\<lparr>row = 0, col = 0, value' = Some ''AA''\<rparr>,
                 \<lparr>row = 1, col = 0, value' = Some ''BB''\<rparr>],
          completedSequences = []\<rparr>"
    by code_simp
  then show ?thesis by simp
qed

text \<open>
  Claim C5, amended: for Scenario A \<open>solveBreachProtocol\<close> returns the 2-step path from
  (0,0) "AA" down its column to (1,0) "BB", with \<open>completedSequences = []\<close>.
\<close>

theorem scenario_A_result:
  "solveBreachProtocol [[''AA'', ''BB''], [''BB'', ''AA'']] [[''AA'', ''AA'']] 2 =
     Inr \<lparr>path = [\<lparr>row = 0, col = 0, value' = Some ''AA''\<rparr>,
                 \<lparr>row = 1, col = 0, value' = Some ''BB''\<rparr>],
          completedSequences = []\<rparr>"
  by code_simp

text \<open>
  Claim C6 (completion soundness): for every Solution returned by \<open>solveBreachProtocol\<close>,
  every index in \<open>completedSequences\<close> names a required sequence that is a (non-contiguous)
  subsequence of the token values of the returned path, both by the scan of the code and
  as list embedding.
\<close>

theorem solve_completion_sound:
  assumes "solveBreachProtocol g r b = Inr s" "i \<in> set (completedSequences s)"
  shows "i < length r \<and> isSubsequence (map value' (path s)) (map Some (r ! i)) \<and>
         subseq (map Some (r ! i)) (map value' (path s))"
proof -
  from assms(1) have "solve g r b = Inr s" by (simp add: solveBreachProtocol_def)
  from solve_cases[OF this] have "sound r (map value' (path s)) (completedSequences s)"
  proof
    assume "s = \<lparr>path = [], completedSequences = []\<rparr>"
    then show ?thesis by (simp add: sound_def)
  next
    assume "\<exists>c < length g. explorePath g r b
        [\<lparr>row = 0, col = c, value' = cell g 0 c\<rparr>] {(0, c)} Col [] = Inr (Some s)"
    then obtain c where
      "explorePath g r b [\<lparr>row = 0, col = c, value' = cell g 0 c\<rparr>] {(0, c)} Col []
         = Inr (Some s)" by blast
    from explorePath_sound[OF this] show ?thesis by (simp add: sound_def)
  qed
  with assms(2) show ?thesis by (auto simp: sound_def isSubsequence_subseq)
qed

theorem solve_completion_sound_witness:
  "solveBreachProtocol [[''AA'', ''BB''], [''BB'', ''AA'']] [[''BB'']] 3 =
     Inr \<lparr>path = [\<lparr>row = 0, col = 0, value' = Some ''AA''\<rparr>,
                 \<lparr>row = 1, col = 0, value' = Some ''BB''\<rparr>],
          completedSequences = [0]\<rparr> \<and>
   (0::nat) \<in> set [0] \<and>
   isSubsequence [Some ''AA'', Some ''BB''] (map Some [''BB'']) \<and>
   subseq (map Some [''BB'']) [Some ''AA'', Some ''BB'']"
proof -
  let ?s = "\<lparr>path = [\<lparr>row = 0, col = 0, value' = Some ''AA''\<rparr>,
                 \<lparr>row = 1, col = 0, value' = Some ''BB''\<rparr>],
          completedSequences = [0]\<rparr>"
  have e: "solveBreachProtocol [[''AA'', ''BB''], [''BB'', ''AA'']] [[''BB'']] 3 = Inr ?s"
    by code_simp
  have m: "0 \<in> set (completedSequences ?s)" by simp
  from solve_completion_sound[OF e m] e show ?thesis by simp
qed

text \<open>
  Claim C7 (movement legality): for every Solution returned by \<open>solveBreachProtocol\<close> with a
  non-empty path, \<open>path[0]\<close> lies in row 0, and for every \<open>i >= 1\<close> the position \<open>path[i]\<close>
  shares the column of \<open>path[i-1]\<close> when \<open>i\<close> is odd and its row when \<open>i\<close> is even.
\<close>

theorem solve_movement_legal:
  assumes "solveBreachProtocol g r b = Inr s" "path s \<noteq> []"
  shows "row (path s ! 0) = 0 \<and>
         (\<forall>i. 1 \<le> i \<and> i < length (path s) \<longrightarrow>
            (odd i \<longrightarrow> col (path s ! i) = col (path s ! (i - 1))) \<and>
            (even i \<longrightarrow> row (path s ! i) = row (path s ! (i - 1))))"
proof -
  from assms(1) have "solve g r b = Inr s" by (simp add: solveBreachProtocol_def)
  from solve_cases[OF this] assms(2) obtain c where
    "explorePath g r b [\<lparr>row = 0, col = c, value' = cell g 0 c\<rparr>] {(0, c)} Col [] = Inr (Some s)"
    by auto
  from explorePath_legal[OF this] obtain ext where
    ext: "path s = \<lparr>row = 0, col = c, value' = cell g 0 c\<rparr> # ext"
      "legalFrom Col \<lparr>row = 0, col = c, value' = cell g 0 c\<rparr> ext"
    by auto
  have "\<forall>i. 1 \<le> i \<and> i < length (path s) \<longrightarrow>
            (odd i \<longrightarrow> col (path s ! i) = col (path s ! (i - 1))) \<and>
            (even i \<longrightarrow> row (path s ! i) = row (path s ! (i - 1)))"
  proof (intro allI impI)
    fix i assume "1 \<le> i \<and> i < length (path s)"
    then obtain j where j: "i = Suc j" "j < length ext"
      using ext(1) by (cases i) auto
    from legalFrom_nth[OF ext(2) j(2)] j ext(1)
    show "(odd i \<longrightarrow> col (path s ! i) = col (path s ! (i - 1))) \<and>
          (even i \<longrightarrow> row (path s ! i) = row (path s ! (i - 1)))"
      by (auto split: if_splits)
  qed
  with ext(1) show ?thesis by simp
qed

theorem solve_movement_legal_witness:
  "solveBreachProtocol [[''AA'', ''BB''], [''BB'', ''AA'']] [[''ZZ'']] 3 =
     Inr \<lparr>path = [\<lparr>row = 0, col = 0, value' = Some ''AA''\<rparr>,
                 \<lparr>row = 1, col = 0, value' = Some ''BB''\<rparr>,
                 \<lparr>row = 1, col = 1, value' = Some ''AA''\<rparr>],
          completedSequences = []\<rparr> \<and>
   row ([\<lparr>row = 0, col = 0, value' = Some ''AA''\<rparr>,
         \<lparr>row = 1, col = 0, value' = Some ''BB''\<rparr>,
         \<lparr>row = 1, col = 1, value' = Some ''AA''\<rparr>] ! 0) = 0 \<and>
   col ([\<lparr>row = 0, col = 0, value' = Some ''AA''\<rparr>,
         \<lparr>row = 1, col = 0, value' = Some ''BB''\<rparr>,
         \<lparr>row = 1, col = 1, value' = Some ''AA''\<rparr>] ! 1) =
   col ([\<lparr>row = 0, col = 0, value' = Some ''AA''\<rparr>,
         \<lparr>row = 1, col = 0, value' = Some ''BB''\<rparr>,
         \<lparr>row = 1, col = 1, value' = Some ''AA''\<rparr>] ! (1 - 1)) \<and>
   row ([\<lparr>row = 0, col = 0, value' = Some ''AA''\<rparr>,
         \<lparr>row = 1, col = 0, value' = Some ''BB''\<rparr>,
         \<lparr>row = 1, col = 1, value' = Some ''AA''\<rparr>] ! 2) =
   row ([\<lparr>row = 0, col = 0, value' = Some ''AA''\<rparr>,
         \<lparr>row = 1, col = 0, value' = Some ''BB''\<rparr>,
         \<lparr>row = 1, col = 1, value' = Some ''AA''\<rparr>] ! (2 - 1))"
proof -
  let ?s = "\<lparr>path = [\<lparr>row = 0, col = 0, value' = Some ''AA''\<rparr>,
                 \<lparr>row = 1, col = 0, value' = Some ''BB''\<rparr>,
                 \<lparr>row = 1, col = 1, value' = Some ''AA''\<rparr>],
          completedSequences = []\<rparr>"
  have e: "solveBreachProtocol [[''AA'', ''BB''], [''BB'', ''AA'']] [[''ZZ'']] 3 = Inr ?s"
    by code_simp
  have n: "path ?s \<noteq> []" by simp
  from solve_movement_legal[OF e n]
  have legal: "row (path ?s ! 0) = 0"
    "\<And>i. 1 \<le> i \<and> i < length (path ?s) \<Longrightarrow>
       (odd i \<longrightarrow> col (path ?s ! i) = col (path ?s ! (i - 1))) \<and>
       (even i \<longrightarrow> row (path ?s ! i) = row (path ?s ! (i - 1)))"
    by blast+
  from legal(1) legal(2)[of 1] legal(2)[of 2] e show ?thesis by simp
qed

text \<open>
  Claim C8 (buffer bound): for every input with bufferSize >= 1, the path of the Solution
  returned by \<open>solveBreachProtocol\<close> has length at most bufferSize.
\<close>

theorem solve_buffer_bound:
  assumes "1 \<le> b" "solveBreachProtocol g r b = Inr s"
  shows "length (path s) \<le> b"
proof -
  from assms(2) have "solve g r b = Inr s" by (simp add: solveBreachProtocol_def)
  from solve_cases[OF this] show ?thesis
  proof
    assume "s = \<lparr>path = [], completedSequences = []\<rparr>"
    then show ?thesis by simp
  next
    assume "\<exists>c < length g. explorePath g r b
        [\<lparr>row = 0, col = c, value' = cell g 0 c\<rparr>] {(0, c)} Col [] = Inr (Some s)"
    then obtain c where
      "explorePath g r b [\<lparr>row = 0, col = c, value' = cell g 0 c\<rparr>] {(0, c)} Col []
         = Inr (Some s)" by blast
    from explorePath_length[OF this] assms(1) show ?thesis by simp
  qed
qed

theorem solve_buffer_bound_witness:
  "(1::nat) \<le> 3 \<and>
   solveBreachProtocol [[''AA'', ''BB''], [''BB'', ''AA'']] [[''BB'']] 3 =
     Inr \<lparr>path = [\<lparr>row = 0, col = 0, value' = Some ''AA''\<rparr>,
                 \<lparr>row = 1, col = 0, value' = Some ''BB''\<rparr>],
          completedSequences = [0]\<rparr> \<and>
   length [\<lparr>row = 0, col = 0, value' = Some ''AA''\<rparr>,
           \<lparr>row = 1, col = 0, value' = Some ''BB''\<rparr>] \<le> 3"
proof -
  let ?s = "\<lparr>path = [\<lparr>row = 0, col = 0, value' = Some ''AA''\<rparr>,
                 \<lparr>row = 1, col = 0, value' = Some ''BB''\<rparr>],
          completedSequences = [0]\<rparr>"
  have b: "(1::nat) \<le> 3" by simp
  have e: "solveBreachProtocol [[''AA'', ''BB''], [''BB'', ''AA'']] [[''BB'']] 3 = Inr ?s"
    by code_simp
  from solve_buffer_bound[OF b e] e show ?thesis by simp
qed

text \<open>
  Claim C9 (subsequence predicate): \<open>isSubsequence(array, subsequence)\<close> returns true if
  and only if there are strictly increasing indices \<open>i0 < i1 < \<dots> < ik\<close> into \<open>array\<close>
  with \<open>array[i_j] = subsequence[j]\<close> for every \<open>j\<close>.
\<close>

theorem isSubsequence_iff_index_assignment:
  "isSubsequence array subsequence \<longleftrightarrow>
     (\<exists>idx. length idx = length subsequence \<and> sorted_wrt (<) idx \<and>
        (\<forall>j < length subsequence. idx ! j < length array \<and> array ! (idx ! j) = subsequence ! j))"
  using subseq_indexAssignment[of subsequence array] indexAssignment_subseq[of array subsequence]
  unfolding isSubsequence_subseq indexAssignment_def by blast

theorem isSubsequence_iff_index_assignment_witness:
  "isSubsequence [''7A'', ''55'', ''1C''] [''7A'', ''1C''] \<and>
   (\<exists>idx. length idx = length [''7A'', ''1C''] \<and> sorted_wrt (<) idx \<and>
      (\<forall>j < length [''7A'', ''1C''].
         idx ! j < length [''7A'', ''55'', ''1C''] \<and>
         [''7A'', ''55'', ''1C''] ! (idx ! j) = [''7A'', ''1C''] ! j))"
proof -
  have "isSubsequence [''7A'', ''55'', ''1C''] [''7A'', ''1C'']" by code_simp
  with isSubsequence_iff_index_assignment[of "[''7A'', ''55'', ''1C'']" "[''7A'', ''1C'']"]
  show ?thesis by blast
qed

text \<open>
  Claim C10 (termination, no exception): \<open>solveBreachProtocol\<close> returns a Solution and
  never throws, for every matrix, list of sequences and buffer size, the well-formed ones
  among them. The recursion of \<open>explorePath\<close> is well-founded: every argument lies in the
  accessible part of its call relation, and each recursive call is made only while the
  path is shorter than bufferSize, with the same matrix, sequences and buffer, on the path
  extended by exactly one position.
\<close>

theorem solveBreachProtocol_total:
  "(\<exists>s. solveBreachProtocol g r b = Inr s) \<and>
   explorePath_dom (g, r, b, p, v, d, c) \<and>
   (explorePath_rel (g', r', b', p', v', d', c') (g, r, b, p, v, d, c) \<longrightarrow>
      length p < b \<and> (\<exists>m. p' = p @ [m]) \<and> g' = g \<and> r' = r \<and> b' = b)"
proof -
  have total: "\<exists>s. solveBreachProtocol g r b = Inr s"
    using solve_no_error[of g r b] by (simp add: solveBreachProtocol_def)
  have "wf {(x, y). explorePath_rel x y}"
    by (rule wf_subset[OF wf_measure]) (auto dest: explorePath_rel_measure)
  then have "wfp explorePath_rel" by (simp add: wfp_def)
  then have dom: "explorePath_dom (g, r, b, p, v, d, c)" by (rule accp_wfpD)
  have step: "explorePath_rel (g', r', b', p', v', d', c') (g, r, b, p, v, d, c) \<longrightarrow>
      length p < b \<and> (\<exists>m. p' = p @ [m]) \<and> g' = g \<and> r' = r \<and> b' = b"
    by (auto elim: explorePath_rel.cases)
  from total dom step show ?thesis by (intro conjI)
qed

theorem solveBreachProtocol_total_witness:
  "(\<exists>s. solveBreachProtocol [[''AA'', ''BB''], [''BB'', ''AA'']] [[''ZZ'']] 2 = Inr s) \<and>
   explorePath_rel
     ([[''AA'', ''BB''], [''BB'', ''AA'']], [[''ZZ'']], 2,
      [\<lparr>row = 0, col = 0, value' = Some ''AA''\<rparr>, \<lparr>row = 1, col = 0, value' = Some ''BB''\<rparr>],
      {(1, 0), (0, 0)}, Row, [])
     ([[''AA'', ''BB''], [''BB'', ''AA'']], [[''ZZ'']], 2,
      [\<lparr>row = 0, col = 0, value' = Some ''AA''\<rparr>], {(0, 0)}, Col, []) \<and>
   length [\<lparr>row = 0, col = 0, value' = Some ''AA''\<rparr>] < 2"
proof -
  let ?g = "[[''AA'', ''BB''], [''BB'', ''AA'']]"
  let ?p = "[\<lparr>row = 0, col = 0, value' = Some ''AA''\<rparr>]"
  let ?m = "\<lparr>row = 1, col = 0, value' = Some ''BB''\<rparr>"
  have a: "\<not> 2 \<le> length ?p" by simp
  have b: "length (newCompleted [[''ZZ'']] (map value' ?p) []) \<noteq> length [[''ZZ'']]"
    by code_simp
  have c: "possibleMoves ?g ?p {(0, 0)} Col = Inr [?m]"
    by code_simp
  have d: "?m \<in> set (sort_key (\<lambda>move. evaluateMove [[''ZZ'']] (map value' ?p) (value' move)
              (newCompleted [[''ZZ'']] (map value' ?p) [])) [?m])"
    by simp
  have "explorePath_rel
     (?g, [[''ZZ'']], 2, ?p @ [?m], insert (row ?m, col ?m) {(0, 0)}, flip Col,
        newCompleted [[''ZZ'']] (map value' ?p) [])
     (?g, [[''ZZ'']], 2, ?p, {(0, 0)}, Col, [])"
    using a b c d by (intro explorePath_rel.intros[OF _ refl refl])
  moreover have "newCompleted [[''ZZ'']] (map value' ?p) [] = []" by code_simp
  ultimately have r: "explorePath_rel
     (?g, [[''ZZ'']], 2, [\<lparr>row = 0, col = 0, value' = Some ''AA''\<rparr>, ?m], {(1, 0), (0, 0)}, Row, [])
     (?g, [[''ZZ'']], 2, ?p, {(0, 0)}, Col, [])"
    by (simp add: flip_def)
  from solveBreachProtocol_total[of ?g "[[''ZZ'']]" 2 ?p "{(0, 0)}" Col "[]" ?g "[[''ZZ'']]" 2
      "[\<lparr>row = 0, col = 0, value' = Some ''AA''\<rparr>, ?m]" "{(1, 0), (0, 0)}" Row "[]"] r
  show ?thesis by simp
qed

end
